theory Spec2Isabelle
  imports Main "HOL-Library.Word"
begin

unbundle bit_operations_syntax

section \<open>Python primitives used by saleae\_parser.py\<close>

text \<open>
  The exceptions the modelled code can raise. A function that can raise returns
  \<open>py_error + 'a\<close>, with \<open>Inl\<close> for the exception.
\<close>

datatype py_error = IndexError | KeyError | ValueError

text \<open>
  \<open>int(s, 16)\<close> on a string of hexadecimal digits. Python also accepts surrounding
  white space, a sign, a \<open>0x\<close> prefix and single underscores between digits; the
  model raises \<open>ValueError\<close> on those, so every statement below about a successful
  conversion is about fields made of hexadecimal digits only.
\<close>

definition hex_digit_val :: "char \<Rightarrow> nat option" where
  "hex_digit_val c =
     map_of (zip ''0123456789abcdefABCDEF''
       [0, 1, 2, 3, 4, 5, 6, 7, 8, 9, 10, 11, 12, 13, 14, 15, 10, 11, 12, 13, 14, 15]) c"

fun int16_acc :: "nat \<Rightarrow> string \<Rightarrow> py_error + nat" where
  "int16_acc acc [] = Inr acc"
| "int16_acc acc (c # cs) =
     (case hex_digit_val c of
        None \<Rightarrow> Inl ValueError
      | Some d \<Rightarrow> int16_acc (16 * acc + d) cs)"

definition int16 :: "string \<Rightarrow> py_error + nat" where
  "int16 s = (if s = [] then Inl ValueError else int16_acc 0 s)"

text \<open>\<open>hex(n).split('0x')[1]\<close> for a non-negative \<open>n\<close>: lower-case digits, no padding.\<close>

definition hex_chars :: string where
  "hex_chars = ''0123456789abcdef''"

fun hex_str :: "nat \<Rightarrow> string" where
  "hex_str n =
     (if n < 16 then [hex_chars ! n]
      else hex_str (n div 16) @ [hex_chars ! (n mod 16)])"

declare hex_str.simps [simp del]

text \<open>\<open>str.upper()\<close> on ASCII text.\<close>

definition upper_char :: "char \<Rightarrow> char" where
  "upper_char c =
     (case map_of (zip ''abcdefghijklmnopqrstuvwxyz'' ''ABCDEFGHIJKLMNOPQRSTUVWXYZ'') c of
        Some u \<Rightarrow> u
      | None \<Rightarrow> c)"

definition upper :: "string \<Rightarrow> string" where
  "upper s = map upper_char s"

text \<open>\<open>s[-2:]\<close>: the last two characters, or all of a shorter string.\<close>

definition last2 :: "string \<Rightarrow> string" where
  "last2 s = drop (length s - 2) s"

text \<open>\<open>"{:0>6x}".format(n)\<close>: lower-case hexadecimal, padded on the left to width 6.\<close>

definition format_06x :: "nat \<Rightarrow> string" where
  "format_06x n = replicate (6 - length (hex_str n)) CHR ''0'' @ hex_str n"

section \<open>The S-record encoder (SPI.print\_results with -s)\<close>

text \<open>An entry of \<open>self.results\<close> as the SPI reader appends it.\<close>

record spi_entry =
  address :: string
  data :: "string list"

text \<open>
  \<open>Analyzer.divide_chunks\<close>: \<open>l[i:i+n]\<close> for \<open>i\<close> in \<open>range(0, len(l), n)\<close>.
  \<open>range\<close> raises \<open>ValueError\<close> for a step of 0.
\<close>

fun chunks_of :: "nat \<Rightarrow> 'a list \<Rightarrow> 'a list list" where
  "chunks_of n l = (if n = 0 \<or> l = [] then [] else take n l # chunks_of n (drop n l))"

declare chunks_of.simps [simp del]

definition divide_chunks :: "'a list \<Rightarrow> nat \<Rightarrow> py_error + 'a list list" where
  "divide_chunks l n = (if n = 0 then Inl ValueError else Inr (chunks_of n l))"

text \<open>
  \<open>data_chunks\<close>. A chunk is whatever the loop \<open>for chunk in data_chunks\<close> binds:
  the code takes its \<open>len\<close>, iterates over it and joins it, so a chunk is modelled as
  the list of the items that iteration yields. With more than 32 data bytes a chunk is
  a list of byte strings. Otherwise \<open>data_chunks\<close> is the data list itself, each chunk
  is one byte string, and iterating over it yields its characters one by one.
\<close>

definition SRECORD_DATA_SIZE :: nat where
  "SRECORD_DATA_SIZE = 32"

definition chars_of :: "string \<Rightarrow> string list" where
  "chars_of s = map (\<lambda>c. [c]) s"

definition data_chunks :: "string list \<Rightarrow> py_error + string list list" where
  "data_chunks d =
     (if length d > SRECORD_DATA_SIZE then divide_chunks d SRECORD_DATA_SIZE
      else Inr (map chars_of d))"

text \<open>\<open>[address[i:i+2] for i in range(0, len(address), 2)]\<close>\<close>

fun address_pieces :: "string \<Rightarrow> string list" where
  "address_pieces [] = []"
| "address_pieces [a] = [[a]]"
| "address_pieces (a # b # cs) = [a, b] # address_pieces cs"

text \<open>The two summing loops: \<open>temp_checksum = temp_checksum + int(b,16)\<close>.\<close>

fun add_int16 :: "nat \<Rightarrow> string list \<Rightarrow> py_error + nat" where
  "add_int16 t [] = Inr t"
| "add_int16 t (b # bs) =
     (case int16 b of Inl e \<Rightarrow> Inl e | Inr v \<Rightarrow> add_int16 (t + v) bs)"

text \<open>One printed line, kept as the four strings that the format string joins.\<close>

record srec_line =
  byte_count :: string
  line_address :: string
  chunk :: "string list"
  checksum :: string

definition render_line :: "srec_line \<Rightarrow> string" where
  "render_line l = ''S2'' @ byte_count l @ line_address l @ concat (chunk l) @ checksum l"

definition encode_byte_count :: "nat \<Rightarrow> string" where
  "encode_byte_count n = (if n \<le> 15 then CHR ''0'' # hex_str n else hex_str n)"

definition encode_checksum :: "nat \<Rightarrow> py_error + string" where
  "encode_checksum n =
     (case int16 (last2 (hex_str n)) of
        Inl e \<Rightarrow> Inl e
      | Inr lsb \<Rightarrow>
          (let c = upper (hex_str (lsb XOR 255))
           in Inr (if length c = 1 then CHR ''0'' # c else c)))"

text \<open>The body of \<open>for chunk in data_chunks\<close> up to the \<open>print\<close>.\<close>

definition srecord_line :: "string \<Rightarrow> string list \<Rightarrow> py_error + srec_line" where
  "srecord_line addr ch =
     (let bc = encode_byte_count (length ch + 3 + 1) in
      case add_int16 0 (address_pieces addr) of
        Inl e \<Rightarrow> Inl e
      | Inr t1 \<Rightarrow>
      (case add_int16 t1 ch of
        Inl e \<Rightarrow> Inl e
      | Inr t2 \<Rightarrow>
      (case int16 bc of
        Inl e \<Rightarrow> Inl e
      | Inr n \<Rightarrow>
      (case encode_checksum (n + t2) of
        Inl e \<Rightarrow> Inl e
      | Inr cs \<Rightarrow>
          Inr \<lparr>byte_count = bc, line_address = addr, chunk = ch, checksum = cs\<rparr>))))"

text \<open>The address update after each printed line.\<close>

definition next_address :: "string \<Rightarrow> py_error + string" where
  "next_address addr =
     (case int16 addr of
        Inl e \<Rightarrow> Inl e
      | Inr a \<Rightarrow> Inr (upper (format_06x (a + SRECORD_DATA_SIZE))))"

text \<open>
  The loop over the chunks of one entry. The result is the lines printed so far and
  the exception that ended the loop, if one did: a line printed before an exception
  stays printed.
\<close>

fun srecord_chunks :: "string \<Rightarrow> string list list \<Rightarrow> srec_line list \<times> py_error option" where
  "srecord_chunks addr [] = ([], None)"
| "srecord_chunks addr (ch # chs) =
     (case srecord_line addr ch of
        Inl e \<Rightarrow> ([], Some e)
      | Inr l \<Rightarrow>
          (case next_address addr of
             Inl e \<Rightarrow> ([l], Some e)
           | Inr addr' \<Rightarrow>
               (case srecord_chunks addr' chs of (ls, r) \<Rightarrow> (l # ls, r))))"

fun print_results_srecord :: "spi_entry list \<Rightarrow> srec_line list \<times> py_error option" where
  "print_results_srecord [] = ([], None)"
| "print_results_srecord (entry # es) =
     (case data_chunks (data entry) of
        Inl e \<Rightarrow> ([], Some e)
      | Inr chs \<Rightarrow>
          (case srecord_chunks (address entry) chs of
             (ls, Some e) \<Rightarrow> (ls, Some e)
           | (ls, None) \<Rightarrow>
               (case print_results_srecord es of (ls', r) \<Rightarrow> (ls @ ls', r))))"

text \<open>
  Reading a printed line back: the encoded byte count, the address bytes as the
  encoder splits them, the items of the chunk and the checksum, summed.
\<close>

definition line_total :: "srec_line \<Rightarrow> py_error + nat" where
  "line_total l =
     (case int16 (byte_count l) of
        Inl e \<Rightarrow> Inl e
      | Inr n \<Rightarrow>
      (case add_int16 n (address_pieces (line_address l)) of
        Inl e \<Rightarrow> Inl e
      | Inr t1 \<Rightarrow>
      (case add_int16 t1 (chunk l) of
        Inl e \<Rightarrow> Inl e
      | Inr t2 \<Rightarrow>
      (case int16 (checksum l) of
        Inl e \<Rightarrow> Inl e
      | Inr c \<Rightarrow> Inr (t2 + c)))))"

section \<open>Reading lines (shared by the readers)\<close>

text \<open>
  The readers iterate over the lines of the export. The model takes the list of the
  lines after \<open>line.rstrip()\<close>, the first being the header. \<open>line.split(',')\<close> never
  returns an empty list.
\<close>

fun split_comma :: "string \<Rightarrow> string list" where
  "split_comma [] = [[]]"
| "split_comma (c # cs) =
     (if c = CHR '','' then [] # split_comma cs
      else (case split_comma cs of
              [] \<Rightarrow> [[c]]
            | w # ws \<Rightarrow> (c # w) # ws))"

definition dq :: char where
  "dq = CHR 0x22"

text \<open>A string literal of the source that is written with its double quotes.\<close>

definition quoted :: "string \<Rightarrow> string" where
  "quoted s = dq # s @ [dq]"

text \<open>\<open>h.strip('"')\<close> and \<open>line.replace('"','')\<close>\<close>

definition strip_dq :: "string \<Rightarrow> string" where
  "strip_dq s = rev (dropWhile (\<lambda>c. c = dq) (rev (dropWhile (\<lambda>c. c = dq) s)))"

definition remove_dq :: "string \<Rightarrow> string" where
  "remove_dq s = filter (\<lambda>c. c \<noteq> dq) s"

text \<open>\<open>s.replace('0x','')\<close>: every occurrence, scanning from the left.\<close>

fun replace_0x :: "string \<Rightarrow> string" where
  "replace_0x [] = []"
| "replace_0x [c] = [c]"
| "replace_0x (c # d # cs) =
     (if c = CHR ''0'' \<and> d = CHR ''x'' then replace_0x cs else c # replace_0x (d # cs))"

text \<open>
  \<open>self.header_pos\<close>, filled by \<open>header_pos[h] = header_pos_count\<close> in the order of
  the header: a later column of the same name overwrites an earlier one. The model
  keeps the list of keys in header order; \<open>len(self.header_pos)\<close> counts distinct keys.
\<close>

definition header_pos :: "string list \<Rightarrow> string \<Rightarrow> nat option" where
  "header_pos keys k = map_of (rev (zip keys [0..<length keys])) k"

definition len_header_pos :: "string list \<Rightarrow> nat" where
  "len_header_pos keys = length (remdups keys)"

text \<open>\<open>values[self.header_pos[k]]\<close>, with the two exceptions it can raise.\<close>

definition field :: "string list \<Rightarrow> string list \<Rightarrow> string \<Rightarrow> py_error + string" where
  "field keys values k =
     (case header_pos keys k of
        None \<Rightarrow> Inl KeyError
      | Some i \<Rightarrow> if i < length values then Inr (values ! i) else Inl IndexError)"

text \<open>
  What one pass of a reading loop does: go on with the next line, leave the method
  with \<open>return\<close>, or raise.
\<close>

datatype 'a flow = Continue 'a | Halt 'a | Raised py_error

section \<open>The SPI flash-read reconstructor (SPI.read\_file with -s or --binary)\<close>

record device =
  READ :: string
  FAST_READ :: string
  FAST_DUAL_READ :: string
  FAST_QUAD_READ :: string
  SIZE :: nat

definition mk_device :: "nat \<Rightarrow> device" where
  "mk_device last_address =
     \<lparr>READ = ''03'', FAST_READ = ''0B'', FAST_DUAL_READ = ''3B'', FAST_QUAD_READ = ''EB'',
      SIZE = last_address + 256\<rparr>"

definition devices :: "(string \<times> device) list" where
  "devices =
     [(''DEFAULT'', mk_device 0x3FFFFFF),
      (''W25Q64FW'', mk_device 0x7FFFFF),
      (''W25Q16JV'', mk_device 0x1FFFFF),
      (''W25Q128JVSQ'', mk_device 0xFFFFFF),
      (''W25Q256JV'', mk_device 0x1FFFFFF),
      (''W25Q512JV'', mk_device 0x3FFFFFF)]"

text \<open>\<open>self.device\<close> as the constructor sets it from \<open>args.device\<close>.\<close>

definition select_device :: "string option \<Rightarrow> device" where
  "select_device arg =
     (case arg of
        None \<Rightarrow> mk_device 0x3FFFFFF
      | Some name \<Rightarrow>
          (case map_of devices name of
             Some d \<Rightarrow> d
           | None \<Rightarrow> mk_device 0x3FFFFFF))"

text \<open>
  The dual-read recovery. The source writes the same expression for the two upper
  nibbles and for the two lower nibbles; \<open>interleave_nibbles\<close> is that expression.
\<close>

definition interleave_nibbles :: "nat \<Rightarrow> nat \<Rightarrow> nat" where
  "interleave_nibbles na nb =
     (push_bit 4 (na AND 0x8) OR push_bit 3 (nb AND 0x8) OR push_bit 3 (na AND 0x4) OR
      push_bit 2 (nb AND 0x4) OR push_bit 2 (na AND 0x2) OR push_bit 1 (nb AND 0x2) OR
      push_bit 1 (na AND 0x1) OR (nb AND 0x1))"

definition dual_read_bytes :: "nat \<Rightarrow> nat \<Rightarrow> nat \<times> nat" where
  "dual_read_bytes a b =
     (let nibble_up_a = drop_bit 4 (a AND 0xf0);
          nibble_low_a = a AND 0x0f;
          nibble_up_b = drop_bit 4 (b AND 0xf0);
          nibble_low_b = b AND 0x0f;
          upper_byte = interleave_nibbles nibble_up_a nibble_up_b;
          lower_byte = interleave_nibbles nibble_low_a nibble_low_b
      in (upper_byte, lower_byte))"

text \<open>\<open>'0x{0:0{1}X}'.format(v,2).replace('0x','').upper()\<close>\<close>

definition format_02X :: "nat \<Rightarrow> string" where
  "format_02X v = replicate (2 - length (hex_str v)) CHR ''0'' @ upper (hex_str v)"

text \<open>
  The local variables of the loop. \<open>command_found\<close> is \<open>False\<close> (\<open>None\<close>) or the
  opcode string of the command found; \<open>address_buf\<close> is the local \<open>address\<close>.
\<close>

record spi_state =
  command_found :: "string option"
  count :: nat
  address_buf :: string
  data_buf :: "string list"
  res_count :: nat
  results :: "spi_entry list"

definition spi_init :: spi_state where
  "spi_init =
     \<lparr>command_found = None, count = 0, address_buf = [], data_buf = [], res_count = 0,
      results = []\<rparr>"

text \<open>The truth value of \<open>command_found\<close>: \<open>False\<close> and the empty string are false.\<close>

definition truthy :: "string option \<Rightarrow> bool" where
  "truthy c = (case c of None \<Rightarrow> False | Some s \<Rightarrow> s \<noteq> [])"

text \<open>
  The \<open>else\<close> branch of \<open>if not command_found\<close>: one cycle of the command in
  progress. The source has this block twice, once per trace shape, with the same text.
\<close>

definition transfer_cycle :: "device \<Rightarrow> spi_state \<Rightarrow> string \<Rightarrow> string \<Rightarrow> py_error + spi_state" where
  "transfer_cycle dev s mosi_val miso_val =
     (if command_found s = Some (READ dev) then
        (if count s \<le> 3 then
           Inr (s\<lparr>address_buf := address_buf s @ mosi_val, count := count s + 1\<rparr>)
         else
           Inr (s\<lparr>data_buf := data_buf s @ [miso_val], count := count s + 1\<rparr>))
      else if command_found s = Some (FAST_READ dev) then
        (if count s \<le> 3 then
           Inr (s\<lparr>address_buf := address_buf s @ mosi_val, count := count s + 1\<rparr>)
         else if count s = 4 then
           Inr (s\<lparr>count := count s + 1\<rparr>)
         else
           Inr (s\<lparr>data_buf := data_buf s @ [miso_val], count := count s + 1\<rparr>))
      else if command_found s = Some (FAST_DUAL_READ dev) then
        (if count s \<le> 3 then
           Inr (s\<lparr>address_buf := address_buf s @ mosi_val, count := count s + 1\<rparr>)
         else if count s = 4 then
           Inr (s\<lparr>count := count s + 1\<rparr>)
         else
           (case int16 miso_val of
              Inl e \<Rightarrow> Inl e
            | Inr a \<Rightarrow>
            (case int16 mosi_val of
              Inl e \<Rightarrow> Inl e
            | Inr b \<Rightarrow>
            (case dual_read_bytes a b of
              (upper_byte, lower_byte) \<Rightarrow>
                Inr (s\<lparr>data_buf := data_buf s @ [format_02X upper_byte, format_02X lower_byte],
                       count := count s + 1\<rparr>)))))
      else if command_found s = Some (FAST_QUAD_READ dev) then
        Inr (s\<lparr>count := count s + 1\<rparr>)
      else Inr s)"

text \<open>Appending the transaction in progress and resetting the locals.\<close>

definition close_transaction :: "spi_state \<Rightarrow> spi_state" where
  "close_transaction s =
     s\<lparr>command_found := None,
       results := results s @ [\<lparr>address = address_buf s, data = data_buf s\<rparr>],
       address_buf := [], data_buf := [], count := 0\<rparr>"

definition is_opcode :: "device \<Rightarrow> string \<Rightarrow> bool" where
  "is_opcode dev m =
     (m = READ dev \<or> m = FAST_READ dev \<or> m = FAST_DUAL_READ dev \<or> m = FAST_QUAD_READ dev)"

text \<open>
  The trace shape with a \<open>type\<close> column. \<open>typed_detect\<close> is the branch
  \<open>if not command_found\<close>: only the \<open>READ\<close> case counts the command cycle.
\<close>

definition typed_detect :: "device \<Rightarrow> spi_state \<Rightarrow> string \<Rightarrow> spi_state" where
  "typed_detect dev s mosi_val =
     (if mosi_val = READ dev \<and> res_count s = 0 then
        s\<lparr>command_found := Some (READ dev), count := count s + 1\<rparr>
      else if mosi_val = FAST_READ dev \<and> res_count s = 0 then
        s\<lparr>command_found := Some (FAST_READ dev)\<rparr>
      else if mosi_val = FAST_DUAL_READ dev \<and> res_count s = 0 then
        s\<lparr>command_found := Some (FAST_DUAL_READ dev)\<rparr>
      else if mosi_val = FAST_QUAD_READ dev \<and> res_count s = 0 then
        s\<lparr>command_found := Some (FAST_QUAD_READ dev)\<rparr>
      else s\<lparr>res_count := res_count s + 1\<rparr>)"

definition typed_row :: "device \<Rightarrow> string list \<Rightarrow> spi_state \<Rightarrow> string list \<Rightarrow> spi_state flow" where
  "typed_row dev headers s values =
     (case field headers values ''type'' of
        Inl e \<Rightarrow> Raised e
      | Inr ty \<Rightarrow>
          if ty = quoted ''disable'' then
            (if truthy (command_found s) then Continue ((close_transaction s)\<lparr>res_count := 0\<rparr>)
             else Continue (s\<lparr>res_count := 0\<rparr>))
          else if ty = quoted ''result'' then
            (if ''miso'' \<in> set headers then
               (case field headers values ''mosi'' of
                  Inl e \<Rightarrow> Raised e
                | Inr mo \<Rightarrow>
                (case field headers values ''miso'' of
                  Inl e \<Rightarrow> Raised e
                | Inr mi \<Rightarrow>
                    if \<not> truthy (command_found s) then
                      Continue (typed_detect dev s (replace_0x mo))
                    else
                      (case transfer_cycle dev s (replace_0x mo) (replace_0x mi) of
                         Inl e \<Rightarrow> Raised e
                       | Inr s' \<Rightarrow> Continue s')))
             else Halt s)
          else Continue s)"

text \<open>
  The trace shape without a \<open>type\<close> column. \<open>untyped_fields\<close> reads the two value
  columns; \<open>Inr None\<close> is the branch that prints the error and returns.
\<close>

definition untyped_fields ::
    "string list \<Rightarrow> string list \<Rightarrow> py_error + (string \<times> string) option" where
  "untyped_fields headers values =
     (let cols = (if ''miso'' \<in> set headers then Some (''mosi'', ''miso'')
                  else if ''MISO'' \<in> set headers then Some (''MOSI'', ''MISO'')
                  else None)
      in case cols of
           None \<Rightarrow> Inr None
         | Some (mosi_col, miso_col) \<Rightarrow>
             (case field headers values mosi_col of
                Inl e \<Rightarrow> Inl e
              | Inr mo \<Rightarrow>
              (case field headers values miso_col of
                Inl e \<Rightarrow> Inl e
              | Inr mi \<Rightarrow> Inr (Some (replace_0x mo, replace_0x mi)))))"

definition untyped_detect :: "device \<Rightarrow> spi_state \<Rightarrow> string \<Rightarrow> spi_state" where
  "untyped_detect dev s mosi_val =
     (if mosi_val = READ dev then s\<lparr>command_found := Some (READ dev), count := count s + 1\<rparr>
      else if mosi_val = FAST_READ dev then
        s\<lparr>command_found := Some (FAST_READ dev), count := count s + 1\<rparr>
      else if mosi_val = FAST_DUAL_READ dev then
        s\<lparr>command_found := Some (FAST_DUAL_READ dev), count := count s + 1\<rparr>
      else if mosi_val = FAST_QUAD_READ dev then
        s\<lparr>command_found := Some (FAST_QUAD_READ dev), count := count s + 1\<rparr>
      else s)"

text \<open>The check \<open>if command_found and count > 4\<close> with its inner opcode test.\<close>

definition new_command_check :: "device \<Rightarrow> spi_state \<Rightarrow> string \<Rightarrow> spi_state" where
  "new_command_check dev s mosi_val =
     (if truthy (command_found s) \<and> count s > 4 \<and> is_opcode dev mosi_val
      then close_transaction s else s)"

definition untyped_cycle :: "device \<Rightarrow> spi_state \<Rightarrow> string \<Rightarrow> string \<Rightarrow> py_error + spi_state" where
  "untyped_cycle dev s mosi_val miso_val =
     (let s1 = new_command_check dev s mosi_val
      in if \<not> truthy (command_found s1) then Inr (untyped_detect dev s1 mosi_val)
         else transfer_cycle dev s1 mosi_val miso_val)"

definition untyped_row :: "device \<Rightarrow> string list \<Rightarrow> spi_state \<Rightarrow> string list \<Rightarrow> spi_state flow" where
  "untyped_row dev headers s values =
     (case untyped_fields headers values of
        Inl e \<Rightarrow> Raised e
      | Inr None \<Rightarrow> Halt s
      | Inr (Some (mosi_val, miso_val)) \<Rightarrow>
          (case untyped_cycle dev s mosi_val miso_val of
             Inl e \<Rightarrow> Raised e
           | Inr s' \<Rightarrow> Continue s'))"

text \<open>
  One data line. When the field count is not the number of header keys the source
  appends a double quote to the line and splits again; a line whose count is still
  different is skipped with a warning.
\<close>

definition spi_values :: "string list \<Rightarrow> string \<Rightarrow> string list option" where
  "spi_values headers line =
     (let line' = (if length (split_comma line) \<noteq> len_header_pos headers then line @ [dq]
                   else line);
          values = split_comma line'
      in if length values \<noteq> len_header_pos headers then None else Some values)"

definition spi_row :: "device \<Rightarrow> string list \<Rightarrow> spi_state \<Rightarrow> string \<Rightarrow> spi_state flow" where
  "spi_row dev headers s line =
     (case spi_values headers line of
        None \<Rightarrow> Continue s
      | Some values \<Rightarrow>
          if ''type'' \<in> set headers then typed_row dev headers s values
          else untyped_row dev headers s values)"

fun spi_loop :: "device \<Rightarrow> string list \<Rightarrow> spi_state \<Rightarrow> string list \<Rightarrow> spi_state flow" where
  "spi_loop dev headers s [] = Continue s"
| "spi_loop dev headers s (line # rest) =
     (case spi_row dev headers s line of
        Continue s' \<Rightarrow> spi_loop dev headers s' rest
      | Halt s' \<Rightarrow> Halt s'
      | Raised e \<Rightarrow> Raised e)"

text \<open>
  \<open>SPI.read_file\<close> on the lines of the export, for \<open>args.srecord or args.binary\<close>.
  The header keys are the fields of the first line with every double quote removed.
\<close>

definition spi_headers :: "string \<Rightarrow> string list" where
  "spi_headers line = split_comma (remove_dq line)"

definition spi_read_file :: "device \<Rightarrow> string list \<Rightarrow> spi_state flow" where
  "spi_read_file dev lines =
     (case lines of
        [] \<Rightarrow> Continue spi_init
      | header # rows \<Rightarrow> spi_loop dev (spi_headers header) spi_init rows)"

section \<open>The inverse bit extraction of the dual-read recovery\<close>

text \<open>
  The source has no de-interleaving; these definitions follow the specification's
  words, to be compared with \<open>dual_read_bytes\<close>: \<open>odd_bits\<close> collects the bits at
  positions 7, 5, 3, 1 of a byte into a nibble and \<open>even_bits\<close> those at positions
  6, 4, 2, 0; \<open>deinterleave\<close> rebuilds the data-line byte from the odd bits of the two
  output bytes and the command-line byte from their even bits.
\<close>

definition odd_bits :: "nat \<Rightarrow> nat" where
  "odd_bits u = (drop_bit 4 (u AND 0x80) OR drop_bit 3 (u AND 0x20) OR
                 drop_bit 2 (u AND 0x08) OR drop_bit 1 (u AND 0x02))"

definition even_bits :: "nat \<Rightarrow> nat" where
  "even_bits u = (drop_bit 3 (u AND 0x40) OR drop_bit 2 (u AND 0x10) OR
                  drop_bit 1 (u AND 0x04) OR (u AND 0x01))"

definition deinterleave :: "nat \<times> nat \<Rightarrow> nat \<times> nat" where
  "deinterleave p =
     (case p of (upper_byte, lower_byte) \<Rightarrow>
        (push_bit 4 (odd_bits upper_byte) OR odd_bits lower_byte,
         push_bit 4 (even_bits upper_byte) OR even_bits lower_byte))"

section \<open>Reading the rows of an SPI trace back\<close>

text \<open>
  These definitions are not in the source; they name what the statements about the
  SPI reader talk about, in terms of the reader's own field extraction.
  \<open>row_type\<close> is the \<open>type\<close> field of a row that the reader does not skip,
  \<open>typed_mosi\<close> and \<open>untyped_mosi\<close> are the command-line value \<open>mosi_val\<close> the
  reader takes from a row in either trace shape, \<open>since_disable\<close> is the part of the
  rows read so far that follows the last \<open>"disable"\<close> row, and \<open>result_rows\<close> keeps
  the \<open>"result"\<close> rows.
\<close>

definition row_type :: "string list \<Rightarrow> string \<Rightarrow> string option" where
  "row_type headers line =
     (case spi_values headers line of
        None \<Rightarrow> None
      | Some values \<Rightarrow>
          (case field headers values ''type'' of Inl e \<Rightarrow> None | Inr ty \<Rightarrow> Some ty))"

definition typed_mosi :: "string list \<Rightarrow> string \<Rightarrow> string option" where
  "typed_mosi headers line =
     (case spi_values headers line of
        None \<Rightarrow> None
      | Some values \<Rightarrow>
          (case field headers values ''mosi'' of
             Inl e \<Rightarrow> None
           | Inr mo \<Rightarrow> Some (replace_0x mo)))"


definition since_disable :: "string list \<Rightarrow> string list \<Rightarrow> string list" where
  "since_disable headers rows =
     rev (takeWhile (\<lambda>l. row_type headers l \<noteq> Some (quoted ''disable'')) (rev rows))"

definition result_rows :: "string list \<Rightarrow> string list \<Rightarrow> string list" where
  "result_rows headers rows = filter (\<lambda>l. row_type headers l = Some (quoted ''result'')) rows"


section \<open>The CAN frame grouper (CAN.read\_file with --can)\<close>

text \<open>An entry of \<open>self.results\<close>: the dictionary with the keys \<open>id\<close> and \<open>data\<close>.\<close>

record can_entry =
  can_id :: string
  can_data :: "string list"

text \<open>
  \<open>temp_entry\<close> is bound exactly when the flag \<open>identifier\<close> is true, so the model
  keeps the flag as \<open>temp_entry \<noteq> None\<close>. \<open>id_counter\<close> is \<open>self.id_counter\<close>.
\<close>

record can_state =
  temp_entry :: "can_entry option"
  id_counter :: "string \<Rightarrow> nat option"
  can_results :: "can_entry list"

definition can_init :: can_state where
  "can_init = \<lparr>temp_entry = None, id_counter = Map.empty, can_results = []\<rparr>"

definition can_headers :: "string \<Rightarrow> string list" where
  "can_headers line = map strip_dq (split_comma line)"

definition can_row :: "string list \<Rightarrow> can_state \<Rightarrow> string \<Rightarrow> py_error + can_state" where
  "can_row keys s line =
     (let values = split_comma line in
      case field keys values ''type'' of
        Inl e \<Rightarrow> Inl e
      | Inr ty \<Rightarrow>
          if ty = quoted ''identifier_field'' then
            (case field keys values ''identifier'' of
               Inl e \<Rightarrow> Inl e
             | Inr ident \<Rightarrow>
                 (case temp_entry s of
                    None \<Rightarrow>
                      Inr (s\<lparr>temp_entry := Some \<lparr>can_id = ident, can_data = []\<rparr>,
                             id_counter := (id_counter s)(ident \<mapsto> 1)\<rparr>)
                  | Some t \<Rightarrow>
                      Inr (s\<lparr>can_results := can_results s @ [t],
                             temp_entry := Some \<lparr>can_id = ident, can_data = []\<rparr>,
                             id_counter := (id_counter s)(ident \<mapsto>
                               (case id_counter s ident of Some n \<Rightarrow> n + 1 | None \<Rightarrow> 1))\<rparr>)))
          else if ty = quoted ''data_field'' then
            (case temp_entry s of
               None \<Rightarrow> Inr s
             | Some t \<Rightarrow>
                 (case field keys values ''data'' of
                    Inl e \<Rightarrow> Inl e
                  | Inr d \<Rightarrow> Inr (s\<lparr>temp_entry := Some (t\<lparr>can_data := can_data t @ [d]\<rparr>)\<rparr>)))
          else Inr s)"

fun can_loop :: "string list \<Rightarrow> can_state \<Rightarrow> string list \<Rightarrow> py_error + can_state" where
  "can_loop keys s [] = Inr s"
| "can_loop keys s (line # rest) =
     (case can_row keys s line of
        Inl e \<Rightarrow> Inl e
      | Inr s' \<Rightarrow> can_loop keys s' rest)"

text \<open>
  \<open>CAN.read_file\<close>: nothing follows the loop, so what is in \<open>temp_entry\<close> when the
  lines end is not appended to \<open>self.results\<close>.
\<close>

definition can_read_file :: "string list \<Rightarrow> py_error + can_state" where
  "can_read_file lines =
     (case lines of
        [] \<Rightarrow> Inr can_init
      | header # rows \<Rightarrow> can_loop (can_headers header) can_init rows)"

section \<open>The base reader (Analyzer.read\_file)\<close>

text \<open>
  An entry of \<open>self.results\<close>: the key \<open>val\<close>, and the keys \<open>before\<close> and
  \<open>after\<close> when they have been set (\<open>None\<close> is a missing key).
\<close>

record trace_record =
  val :: "string list"
  before :: "string list list option"
  after :: "string list list option"

text \<open>
  The attributes the constructor sets. \<open>self.before\<close> and \<open>self.after\<close> exist only
  when the argument is given and not 0 (\<open>if args.before:\<close>); \<open>None\<close> is a missing
  attribute.
\<close>

record analyzer =
  data_filter :: "string option"
  self_before :: "int option"
  self_after :: "int option"

definition set_if_truthy :: "int option \<Rightarrow> int option" where
  "set_if_truthy arg = (case arg of None \<Rightarrow> None | Some n \<Rightarrow> if n = 0 then None else Some n)"

definition mk_analyzer :: "string option \<Rightarrow> int option \<Rightarrow> int option \<Rightarrow> analyzer" where
  "mk_analyzer args_data_filter args_before args_after =
     \<lparr>data_filter = args_data_filter, self_before = set_if_truthy args_before,
      self_after = set_if_truthy args_after\<rparr>"

record base_state =
  before_buffer :: "string list list"
  after_buffer :: "string list list"
  trace_results :: "trace_record list"

definition base_init :: base_state where
  "base_init = \<lparr>before_buffer = [], after_buffer = [], trace_results = []\<rparr>"

text \<open>\<open>self.results[-1]['after'] = after_buffer\<close>, on a list that is not empty.\<close>

definition set_last_after :: "string list list \<Rightarrow> trace_record list \<Rightarrow> trace_record list" where
  "set_last_after buf rs = butlast rs @ [(last rs)\<lparr>after := Some buf\<rparr>]"

text \<open>
  One data line. \<open>re_search pattern line\<close> stands for
  \<open>re.search(self.data_filter, line, re.IGNORECASE)\<close> being a match; the regular
  expression engine is a parameter of the model.
\<close>

definition base_row ::
    "(string \<Rightarrow> string \<Rightarrow> bool) \<Rightarrow> analyzer \<Rightarrow> base_state \<Rightarrow> string \<Rightarrow> py_error + base_state" where
  "base_row re_search self s line =
     (let values = split_comma line in
      case data_filter self of
        None \<Rightarrow> Inr (s\<lparr>trace_results := trace_results s @
                        [\<lparr>val = values, before = None, after = None\<rparr>]\<rparr>)
      | Some pattern \<Rightarrow>
          if pattern = [] then
            Inr (s\<lparr>trace_results := trace_results s @
                   [\<lparr>val = values, before = None, after = None\<rparr>]\<rparr>)
          else if re_search pattern line then
            Inr \<lparr>before_buffer = [], after_buffer = [],
                 trace_results =
                   (if length (trace_results s) > 0
                    then set_last_after (after_buffer s) (trace_results s)
                    else trace_results s) @
                   [\<lparr>val = values, before = Some (before_buffer s), after = None\<rparr>]\<rparr>
          else
            (case (case self_before self of
                     None \<Rightarrow> Inr (before_buffer s)
                   | Some b \<Rightarrow>
                       if int (length (before_buffer s)) < b then Inr (before_buffer s @ [values])
                       else if before_buffer s = [] then Inl IndexError
                       else Inr (tl (before_buffer s) @ [values])) of
               Inl e \<Rightarrow> Inl e
             | Inr bb \<Rightarrow>
                 (case self_after self of
                    None \<Rightarrow> Inr (s\<lparr>before_buffer := bb\<rparr>)
                  | Some a \<Rightarrow>
                      if length (trace_results s) > 0 then
                        (if int (length (after_buffer s)) < a then
                           Inr (s\<lparr>before_buffer := bb, after_buffer := after_buffer s @ [values]\<rparr>)
                         else if after (last (trace_results s)) = None then
                           Inr (s\<lparr>before_buffer := bb,
                                  trace_results :=
                                    set_last_after (after_buffer s) (trace_results s)\<rparr>)
                         else Inr (s\<lparr>before_buffer := bb\<rparr>))
                      else Inr (s\<lparr>before_buffer := bb\<rparr>))))"

fun base_loop ::
    "(string \<Rightarrow> string \<Rightarrow> bool) \<Rightarrow> analyzer \<Rightarrow> base_state \<Rightarrow> string list \<Rightarrow> py_error + base_state" where
  "base_loop re_search self s [] = Inr s"
| "base_loop re_search self s (line # rest) =
     (case base_row re_search self s line of
        Inl e \<Rightarrow> Inl e
      | Inr s' \<Rightarrow> base_loop re_search self s' rest)"

text \<open>
  The repair pass after the loop. \<open>join_next r r2\<close> is the body of the \<open>while\<close>: the
  last field of \<open>r\<close> gets a line feed and the first field of the following entry, the
  other fields of the following entry are appended, and the following entry is popped.
  Indexing an empty field list or a missing following entry raises \<open>IndexError\<close>.
\<close>

definition join_fields :: "string list \<Rightarrow> string list \<Rightarrow> string list" where
  "join_fields v v2 = butlast v @ [last v @ [CHR 0x0A] @ hd v2] @ tl v2"

definition join_next :: "trace_record \<Rightarrow> trace_record \<Rightarrow> trace_record" where
  "join_next r r2 = r\<lparr>val := join_fields (val r) (val r2)\<rparr>"

function repair :: "nat \<Rightarrow> trace_record list \<Rightarrow> py_error + trace_record list" where
  "repair n [] = Inr []"
| "repair n (r # rs) =
     (if length (val r) < n then
        (case rs of
           [] \<Rightarrow> Inl IndexError
         | r2 # rs' \<Rightarrow>
             if val r = [] \<or> val r2 = [] then Inl IndexError
             else repair n (join_next r r2 # rs'))
      else
        (case repair n rs of
           Inl e \<Rightarrow> Inl e
         | Inr rs' \<Rightarrow> Inr (r # rs')))"
  by pat_completeness auto
termination
  by (relation "measure (\<lambda>(n, rs). length rs)") auto

text \<open>
  \<open>Analyzer.read_file\<close> on the lines of the export: the entries of \<open>self.results\<close>
  when the method returns. \<open>self.headers\<close> is the split header line.
\<close>

definition analyzer_read_file ::
    "(string \<Rightarrow> string \<Rightarrow> bool) \<Rightarrow> analyzer \<Rightarrow> string list \<Rightarrow> py_error + trace_record list" where
  "analyzer_read_file re_search self lines =
     (case lines of
        [] \<Rightarrow> Inr []
      | header # rows \<Rightarrow>
          (case base_loop re_search self base_init rows of
             Inl e \<Rightarrow> Inl e
           | Inr s \<Rightarrow> repair (length (split_comma header)) (trace_results s)))"

text \<open>
  A stand-in for the regular expression engine on patterns without metacharacters:
  a search for the pattern as a substring, ignoring case.
\<close>

fun has_sublist :: "string \<Rightarrow> string \<Rightarrow> bool" where
  "has_sublist p [] = (p = [])"
| "has_sublist p (c # cs) = (take (length p) (c # cs) = p \<or> has_sublist p cs)"

definition literal_search :: "string \<Rightarrow> string \<Rightarrow> bool" where
  "literal_search pattern line = has_sublist (upper pattern) (upper line)"

section \<open>Exports with a line feed inside a quoted field\<close>



section \<open>Properties of the hexadecimal conversions\<close>

lemma xor_pow2_minus_1:
  "x < 2 ^ n \<Longrightarrow> (x::nat) XOR (2 ^ n - 1) = 2 ^ n - 1 - x"
proof (induction n arbitrary: x)
  case 0
  then show ?case by simp
next
  case (Suc n)
  have h: "x div 2 < 2 ^ n" using Suc.prems by auto
  have d: "((2::nat) ^ Suc n - 1) div 2 = 2 ^ n - 1" by auto
  have o: "odd ((2::nat) ^ Suc n - 1)" by simp
  have "x XOR (2 ^ Suc n - 1) =
      of_bool (odd x \<noteq> odd ((2::nat) ^ Suc n - 1)) + 2 * (x div 2 XOR (2 ^ Suc n - 1) div 2)"
    by (rule xor_nat_rec)
  also have "\<dots> = of_bool (even x) + 2 * (2 ^ n - 1 - x div 2)"
    unfolding d using o Suc.IH [OF h] by simp
  also have "\<dots> = 2 ^ Suc n - 1 - x"
    using h by (cases "even x") (auto elim!: evenE oddE)
  finally show ?case .
qed

lemma xor_255: "x < 256 \<Longrightarrow> (x::nat) XOR 255 = 255 - x"
  using xor_pow2_minus_1 [of x 8] by simp

lemma lt16_cases: "d < 16 \<Longrightarrow> d \<in> set [0,1,2,3,4,5,6,7,8,9,10,11,12,13,14,15::nat]"
  by simp arith

lemma hex_digit_val_table:
  "list_all (\<lambda>d. hex_digit_val (hex_chars ! d) = Some d \<and>
        hex_digit_val (upper_char (hex_chars ! d)) = Some d)
     [0, 1, 2, 3, 4, 5, 6, 7, 8, 9, 10, 11, 12, 13, 14, 15]"
  by code_simp

lemma hex_digit_val_hex_chars:
  "d < 16 \<Longrightarrow> hex_digit_val (hex_chars ! d) = Some d"
  using hex_digit_val_table lt16_cases [of d] unfolding list_all_iff by blast

lemma hex_digit_val_upper:
  "d < 16 \<Longrightarrow> hex_digit_val (upper_char (hex_chars ! d)) = Some d"
  using hex_digit_val_table lt16_cases [of d] unfolding list_all_iff by blast

lemma int16_acc_append:
  "int16_acc acc (xs @ ys) =
     (case int16_acc acc xs of Inl e \<Rightarrow> Inl e | Inr v \<Rightarrow> int16_acc v ys)"
  by (induction xs arbitrary: acc) (auto split: option.splits)

lemma hex_str_nonempty: "hex_str n \<noteq> []"
  by (subst hex_str.simps) simp

lemma hex_str_small: "n < 16 \<Longrightarrow> hex_str n = [hex_chars ! n]"
  by (subst hex_str.simps) simp

lemma hex_str_large:
  "\<not> n < 16 \<Longrightarrow> hex_str n = hex_str (n div 16) @ [hex_chars ! (n mod 16)]"
  by (subst hex_str.simps) simp

text \<open>The digits of a number, with any map on characters that keeps digit values.\<close>

lemma int16_acc_map_hex_str:
  assumes f: "\<And>d. d < 16 \<Longrightarrow> hex_digit_val (f (hex_chars ! d)) = Some d"
  shows "int16_acc acc (map f (hex_str n)) = Inr (acc * 16 ^ length (hex_str n) + n)"
proof (induction n arbitrary: acc rule: hex_str.induct)
  case (1 n)
  show ?case
  proof (cases "n < 16")
    case True
    then show ?thesis by (simp add: hex_str_small f)
  next
    case False
    then show ?thesis
      by (simp add: hex_str_large int16_acc_append "1.IH" f algebra_simps)
  qed
qed

lemma int16_hex_str: "int16 (hex_str n) = Inr n"
  using int16_acc_map_hex_str [of id 0 n]
  by (simp add: int16_def hex_str_nonempty hex_digit_val_hex_chars)

lemma int16_upper_hex_str: "int16 (upper (hex_str n)) = Inr n"
  using int16_acc_map_hex_str [of upper_char 0 n]
  by (simp add: int16_def upper_def hex_str_nonempty hex_digit_val_upper)

lemma int16_zero_cons: "s \<noteq> [] \<Longrightarrow> int16 (CHR ''0'' # s) = int16 s"
  by (simp add: int16_def hex_digit_val_def)

lemma hex_str_last: "last (hex_str n) = hex_chars ! (n mod 16)"
  by (cases "n < 16") (simp_all add: hex_str_small hex_str_large)

lemma last2_snoc: "xs \<noteq> [] \<Longrightarrow> last2 (xs @ [c]) = [last xs, c]"
proof -
  assume "xs \<noteq> []"
  then obtain ys y where "xs = ys @ [y]" by (metis append_butlast_last_id)
  then show ?thesis by (simp add: last2_def)
qed

lemma int16_last2_hex_str: "int16 (last2 (hex_str n)) = Inr (n mod 256)"
proof (cases "n < 16")
  case True
  then show ?thesis
    by (simp add: hex_str_small last2_def int16_def hex_digit_val_hex_chars)
next
  case False
  have "last2 (hex_str n) = [hex_chars ! ((n div 16) mod 16), hex_chars ! (n mod 16)]"
    using False by (simp add: hex_str_large last2_snoc hex_str_nonempty hex_str_last)
  moreover have "16 * ((n div 16) mod 16) + n mod 16 = n mod 256"
    using mod_mult2_eq [of n 16 16] by simp
  ultimately show ?thesis
    by (simp add: int16_def hex_digit_val_hex_chars)
qed

lemma upper_nonempty: "s \<noteq> [] \<Longrightarrow> upper s \<noteq> []"
  by (simp add: upper_def)

lemma int16_encode_byte_count: "int16 (encode_byte_count n) = Inr n"
  by (simp add: encode_byte_count_def int16_zero_cons hex_str_nonempty int16_hex_str)

lemma encode_checksum_value:
  "\<exists>cs. encode_checksum n = Inr cs \<and> int16 cs = Inr (255 - n mod 256)"
  by (simp add: encode_checksum_def int16_last2_hex_str xor_255 Let_def
      int16_zero_cons int16_upper_hex_str upper_nonempty hex_str_nonempty)

lemma add_int16_shift:
  "add_int16 t bs = Inr r \<Longrightarrow> add_int16 (t + k) bs = Inr (r + k)"
proof (induction bs arbitrary: t)
  case Nil
  then show ?case by simp
next
  case (Cons b bs)
  from Cons.prems obtain v where v: "int16 b = Inr v" and r: "add_int16 (t + v) bs = Inr r"
    by (auto split: sum.splits)
  have "add_int16 (t + k + v) bs = add_int16 (t + v + k) bs"
    by (simp add: ac_simps)
  with Cons.IH [OF r] v show ?case by simp
qed

lemma ones_complement_total: "(a + b + (255 - (b + a) mod 256)) mod 256 = (255::nat)"
proof -
  define s where "s = b + a"
  have "s = 256 * (s div 256) + s mod 256" by simp
  moreover have "s mod 256 < 256" by simp
  ultimately have "s + (255 - s mod 256) = 256 * (s div 256) + 255" by linarith
  then have "(s + (255 - s mod 256)) mod 256 = 255" by simp
  then show ?thesis by (simp add: s_def add.commute)
qed

lemma srecord_line_total:
  assumes "srecord_line addr ch = Inr l"
  shows "\<exists>t. line_total l = Inr t \<and> t mod 256 = 255"
proof -
  define n where "n = length ch + 3 + 1"
  from assms obtain t1 t2 cs where
    t1: "add_int16 0 (address_pieces addr) = Inr t1" and
    t2: "add_int16 t1 ch = Inr t2" and
    cs: "encode_checksum (n + t2) = Inr cs" and
    l: "l = \<lparr>byte_count = encode_byte_count n, line_address = addr, chunk = ch, checksum = cs\<rparr>"
    unfolding srecord_line_def Let_def n_def [symmetric]
    by (auto simp: int16_encode_byte_count split: sum.splits)
  from encode_checksum_value [of "n + t2"] cs
  have c: "int16 cs = Inr (255 - (n + t2) mod 256)" by simp
  have a1: "add_int16 n (address_pieces addr) = Inr (t1 + n)"
    using add_int16_shift [OF t1, of n] by simp
  have a2: "add_int16 (t1 + n) ch = Inr (t2 + n)"
    by (rule add_int16_shift [OF t2])
  have "line_total l = Inr (t2 + n + (255 - (n + t2) mod 256))"
    by (simp add: line_total_def l int16_encode_byte_count a1 a2 c)
  moreover have "(t2 + n + (255 - (n + t2) mod 256)) mod 256 = 255"
    by (rule ones_complement_total)
  ultimately show ?thesis by blast
qed

section \<open>Properties of the S-record encoder\<close>

lemma srecord_line_chunk: "srecord_line addr ch = Inr l \<Longrightarrow> chunk l = ch"
  by (auto simp: srecord_line_def Let_def split: sum.splits)

lemma srecord_chunks_lines:
  "l \<in> set (fst (srecord_chunks addr chs)) \<Longrightarrow>
     \<exists>a ch. ch \<in> set chs \<and> srecord_line a ch = Inr l"
proof (induction chs arbitrary: addr)
  case Nil
  then show ?case by simp
next
  case (Cons ch chs)
  show ?case
  proof (cases "srecord_line addr ch")
    case (Inl e)
    with Cons.prems show ?thesis by simp
  next
    case (Inr l0)
    show ?thesis
    proof (cases "next_address addr")
      case (Inl e)
      with Inr Cons.prems show ?thesis by auto
    next
      case (Inr addr')
      with \<open>srecord_line addr ch = Inr l0\<close> Cons.prems
      have "l = l0 \<or> l \<in> set (fst (srecord_chunks addr' chs))"
        by (auto split: prod.splits)
      then show ?thesis
      proof
        assume "l = l0"
        with \<open>srecord_line addr ch = Inr l0\<close> show ?thesis by auto
      next
        assume "l \<in> set (fst (srecord_chunks addr' chs))"
        from Cons.IH [OF this] show ?thesis by auto
      qed
    qed
  qed
qed

lemma print_results_srecord_lines:
  "l \<in> set (fst (print_results_srecord es)) \<Longrightarrow>
     \<exists>e\<in>set es. \<exists>chs a ch. data_chunks (data e) = Inr chs \<and> ch \<in> set chs \<and>
        srecord_line a ch = Inr l"
proof (induction es)
  case Nil
  then show ?case by simp
next
  case (Cons e es)
  show ?case
  proof (cases "data_chunks (data e)")
    case (Inl err)
    with Cons.prems show ?thesis by simp
  next
    case (Inr chs)
    obtain ls r where sc: "srecord_chunks (address e) chs = (ls, r)"
      by (cases "srecord_chunks (address e) chs")
    from Cons.prems Inr sc
    have "l \<in> set ls \<or> l \<in> set (fst (print_results_srecord es))"
      by (cases r) (auto split: prod.splits)
    then show ?thesis
    proof
      assume "l \<in> set ls"
      then have "l \<in> set (fst (srecord_chunks (address e) chs))" by (simp add: sc)
      from srecord_chunks_lines [OF this] Inr show ?thesis by auto
    next
      assume "l \<in> set (fst (print_results_srecord es))"
      from Cons.IH [OF this] show ?thesis by auto
    qed
  qed
qed

text \<open>
  Claim C1, as amended. The checksum is the one's complement of the low byte of the
  sum, so for every entry with more than 32 data bytes every printed line carries a
  chunk cut by \<open>divide_chunks\<close> from the entry's data bytes, and the encoded byte
  count, the address bytes, the chunk's data bytes and the checksum byte add up to
  255 modulo 256 (not to 0).
\<close>

theorem srecord_checksum_ones_complement:
  assumes long: "\<forall>e\<in>set es. SRECORD_DATA_SIZE < length (data e)"
    and l: "l \<in> set (fst (print_results_srecord es))"
  shows "(\<exists>e\<in>set es. chunk l \<in> set (chunks_of SRECORD_DATA_SIZE (data e))) \<and>
         (\<exists>t. line_total l = Inr t \<and> t mod 256 = 255)"
proof -
  from print_results_srecord_lines [OF l] obtain e chs a ch where
    e: "e \<in> set es" and chs: "data_chunks (data e) = Inr chs" and ch: "ch \<in> set chs"
    and sl: "srecord_line a ch = Inr l"
    by blast
  from long e have "SRECORD_DATA_SIZE < length (data e)" by blast
  with chs have "chs = chunks_of SRECORD_DATA_SIZE (data e)"
    by (auto simp: data_chunks_def divide_chunks_def split: if_splits)
  with ch srecord_line_chunk [OF sl] e
  have "\<exists>e\<in>set es. chunk l \<in> set (chunks_of SRECORD_DATA_SIZE (data e))" by blast
  with srecord_line_total [OF sl] show ?thesis by blast
qed

text \<open>
  The theorem at an entry with 33 data bytes at address 000000, for its first line.
\<close>

theorem srecord_checksum_ones_complement_witness:
  "(\<exists>e\<in>set [\<lparr>address = ''000000'', data = replicate 33 ''00''\<rparr>].
       chunk \<lparr>byte_count = ''24'', line_address = ''000000'', chunk = replicate 32 ''00'',
          checksum = ''DB''\<rparr> \<in> set (chunks_of SRECORD_DATA_SIZE (data e))) \<and>
   (\<exists>t. line_total \<lparr>byte_count = ''24'', line_address = ''000000'',
          chunk = replicate 32 ''00'', checksum = ''DB''\<rparr> = Inr t \<and> t mod 256 = 255)"
proof -
  let ?es = "[\<lparr>address = ''000000'', data = replicate 33 ''00''\<rparr>]"
  let ?l = "\<lparr>byte_count = ''24'', line_address = ''000000'', chunk = replicate 32 ''00'',
          checksum = ''DB''\<rparr>"
  have h1: "\<forall>e\<in>set ?es. SRECORD_DATA_SIZE < length (data e)"
    by (simp add: SRECORD_DATA_SIZE_def)
  have h2: "?l \<in> set (fst (print_results_srecord ?es))"
    by code_simp
  from srecord_checksum_ones_complement [OF h1 h2] show ?thesis .
qed

text \<open>
  Claim C1 as stated fails: the first line printed for 33 zero bytes at address 000000
  is \<open>S224000000\<close>, 32 times \<open>00\<close>, \<open>DB\<close>, and its bytes add up to 255.
\<close>

theorem srecord_checksum_not_zero:
  "fst (print_results_srecord [\<lparr>address = ''000000'', data = replicate 33 ''00''\<rparr>]) =
     [\<lparr>byte_count = ''24'', line_address = ''000000'', chunk = replicate 32 ''00'',
        checksum = ''DB''\<rparr>,
      \<lparr>byte_count = ''05'', line_address = ''000020'', chunk = [''00''],
        checksum = ''DA''\<rparr>] \<and>
   line_total \<lparr>byte_count = ''24'', line_address = ''000000'', chunk = replicate 32 ''00'',
        checksum = ''DB''\<rparr> = Inr 255 \<and>
   (255::nat) mod 256 \<noteq> 0"
  by code_simp

text \<open>
  Claim C2 at a transaction with two data bytes. \<open>data_chunks\<close> is then the data
  list itself, so the loop prints one line per byte, each with byte count 06 (the
  length of the two-character string plus 4), a checksum over the two hexadecimal
  digits taken one by one, and the address advanced by 32 in between, where a single
  chunk of two bytes would give the one line \<open>S206000000AABB\<close> and its checksum.
\<close>

theorem srecord_short_data_one_line_per_byte:
  "map render_line (fst (print_results_srecord [\<lparr>address = ''000000'', data = [''AA'', ''BB'']\<rparr>]))
     = [''S206000000AAE5'', ''S206000020BBC3''] \<and>
   snd (print_results_srecord [\<lparr>address = ''000000'', data = [''AA'', ''BB'']\<rparr>]) = None"
  by code_simp

section \<open>Properties of the dual-read recovery\<close>

lemma nibble_table:
  "list_all (\<lambda>na. list_all (\<lambda>nb.
       odd_bits (interleave_nibbles na nb) = na \<and> even_bits (interleave_nibbles na nb) = nb)
     [0, 1, 2, 3, 4, 5, 6, 7, 8, 9, 10, 11, 12, 13, 14, 15])
     [0, 1, 2, 3, 4, 5, 6, 7, 8, 9, 10, 11, 12, 13, 14, 15]"
  by (simp add: interleave_nibbles_def odd_bits_def even_bits_def)

lemma nibble_inverse:
  assumes "na < 16" and "nb < 16"
  shows "odd_bits (interleave_nibbles na nb) = na \<and> even_bits (interleave_nibbles na nb) = nb"
  using nibble_table lt16_cases [OF assms(1)] lt16_cases [OF assms(2)]
  unfolding list_all_iff by blast

lemma low_nibble: "(a::nat) AND 0x0f = a mod 16"
proof -
  have "a AND mask 4 = a mod 2 ^ 4"
    by (simp only: take_bit_eq_mask [symmetric] take_bit_eq_mod)
  then show ?thesis by (simp add: mask_eq_exp_minus_1)
qed

lemma up_nibble: "drop_bit 4 ((a::nat) AND 0xf0) = (a div 16) mod 16"
proof -
  have "drop_bit 4 (a AND 0xf0) = drop_bit 4 a AND drop_bit 4 (0xf0::nat)"
    by (rule drop_bit_and)
  also have "drop_bit 4 (0xf0::nat) = 0x0f"
    by (simp add: drop_bit_eq_div)
  also have "drop_bit 4 a AND 0x0f = (a div 16) mod 16"
    by (simp only: low_nibble drop_bit_eq_div) simp
  finally show ?thesis .
qed

lemma recombine_nibbles: "push_bit 4 (a div 16) OR a mod 16 = (a::nat)"
proof -
  have "push_bit 4 (drop_bit 4 a) AND take_bit 4 a = 0"
    by (rule bit_eqI) (auto simp: bit_simps)
  then have "push_bit 4 (drop_bit 4 a) + take_bit 4 a = push_bit 4 (drop_bit 4 a) OR take_bit 4 a"
    by (rule disjunctive_add_eq_or)
  then have "push_bit 4 (drop_bit 4 a) OR take_bit 4 a = a"
    by (simp only: bits_ident)
  then show ?thesis
    by (simp add: drop_bit_eq_div take_bit_eq_mod)
qed

text \<open>
  Claim C7. For all one-byte values on the data line (\<open>miso_val\<close>) and the command
  line (\<open>mosi_val\<close>), extracting the odd bit positions of the two output bytes of the
  dual-read recovery gives back \<open>miso_val\<close> and extracting the even bit positions
  gives back \<open>mosi_val\<close>; so the recovery is injective on pairs of bytes.
\<close>

theorem dual_read_invertible:
  assumes "miso_val < 256" and "mosi_val < 256"
  shows "deinterleave (dual_read_bytes miso_val mosi_val) = (miso_val, mosi_val) \<and>
         (\<forall>a b. a < 256 \<and> b < 256 \<and>
            dual_read_bytes a b = dual_read_bytes miso_val mosi_val \<longrightarrow>
            a = miso_val \<and> b = mosi_val)"
proof -
  have inv: "deinterleave (dual_read_bytes a b) = (a, b)" if "a < 256" and "b < 256" for a b
  proof -
    have a: "a div 16 < 16" "a mod 16 < 16" using that(1) by simp_all
    have b: "b div 16 < 16" "b mod 16 < 16" using that(2) by simp_all
    have ua: "drop_bit 4 (a AND 0xf0) = a div 16"
      using a(1) by (simp only: up_nibble) simp
    have ub: "drop_bit 4 (b AND 0xf0) = b div 16"
      using b(1) by (simp only: up_nibble) simp
    have "dual_read_bytes a b =
        (interleave_nibbles (a div 16) (b div 16), interleave_nibbles (a mod 16) (b mod 16))"
      unfolding dual_read_bytes_def Let_def ua ub low_nibble ..
    then show ?thesis
      using nibble_inverse [OF a(1) b(1)] nibble_inverse [OF a(2) b(2)]
      by (simp add: deinterleave_def recombine_nibbles)
  qed
  have "a = miso_val \<and> b = mosi_val"
    if "a < 256" "b < 256" "dual_read_bytes a b = dual_read_bytes miso_val mosi_val" for a b
  proof -
    have e1: "deinterleave (dual_read_bytes a b) = (a, b)"
      by (rule inv [OF that(1) that(2)])
    have e2: "deinterleave (dual_read_bytes miso_val mosi_val) = (miso_val, mosi_val)"
      by (rule inv [OF assms])
    from e1 [unfolded that(3)] e2 show ?thesis by simp
  qed
  with inv assms show ?thesis by blast
qed

text \<open>The theorem at the bytes F0 on the data line and 0F on the command line.\<close>

theorem dual_read_invertible_witness:
  "dual_read_bytes 0xF0 0x0F = (0xAA, 0x55) \<and> deinterleave (0xAA, 0x55) = (0xF0, 0x0F)"
proof -
  have h1: "(0xF0::nat) < 256" and h2: "(0x0F::nat) < 256" by simp_all
  have v: "dual_read_bytes 0xF0 0x0F = (0xAA, 0x55)"
    by (simp add: dual_read_bytes_def interleave_nibbles_def)
  from dual_read_invertible [OF h1 h2] v show ?thesis by simp
qed

section \<open>Properties of the base reader and of the CAN grouper\<close>







text \<open>
  Claim C6 at a filtered read with an after capacity of 2 and one row after the only
  match: the row is buffered, but the buffer is assigned to the anchor only by a later
  match or by a later row that finds the buffer full, so the anchor is returned without
  the key \<open>after\<close>.
\<close>

theorem last_anchor_without_after:
  "analyzer_read_file literal_search (mk_analyzer (Some ''AA'') None (Some 2))
       [''Time [s],Value'', ''0.1,0xAA'', ''0.2,0xBB''] =
     Inr [\<lparr>val = [''0.1'', ''0xAA''], before = Some [], after = None\<rparr>]"
  by code_simp

text \<open>
  Claim C3 at the trace of scenario D: two identifier rows for 101, each followed by one
  data row. The second frame is still in \<open>temp_entry\<close> when the lines end; the result
  set holds the first frame only, while the counter for 101 is 2.
\<close>

theorem can_last_frame_not_flushed:
  "map_sum id can_results (can_read_file
      [quoted ''type'' @ '','' @ quoted ''identifier'' @ '','' @ quoted ''data'',
       quoted ''identifier_field'' @ '',101,'',
       quoted ''data_field'' @ '',,0xAA'',
       quoted ''identifier_field'' @ '',101,'',
       quoted ''data_field'' @ '',,0xBB'']) =
     Inr [\<lparr>can_id = ''101'', can_data = [''0xAA'']\<rparr>] \<and>
   map_sum id (\<lambda>s. id_counter s ''101'') (can_read_file
      [quoted ''type'' @ '','' @ quoted ''identifier'' @ '','' @ quoted ''data'',
       quoted ''identifier_field'' @ '',101,'',
       quoted ''data_field'' @ '',,0xAA'',
       quoted ''identifier_field'' @ '',101,'',
       quoted ''data_field'' @ '',,0xBB'']) = Inr (Some 2)"
  by code_simp

section \<open>Properties of the SPI reconstructor\<close>

text \<open>
  Every device of the table has the same four opcodes.
\<close>

lemma select_device_mk: "\<exists>t. select_device arg = mk_device t"
proof (cases arg)
  case None
  then show ?thesis by (auto simp: select_device_def)
next
  case (Some name)
  show ?thesis
  proof (cases "map_of devices name")
    case None
    with Some show ?thesis by (auto simp: select_device_def)
  next
    case (Some d)
    then have "(name, d) \<in> set devices" by (rule map_of_SomeD)
    then have "\<exists>t. d = mk_device t" by (auto simp: devices_def)
    with Some \<open>arg = Some name\<close> show ?thesis by (simp add: select_device_def)
  qed
qed

lemma opcodes [simp]:
  "READ (select_device arg) = ''03''" "FAST_READ (select_device arg) = ''0B''"
  "FAST_DUAL_READ (select_device arg) = ''3B''" "FAST_QUAD_READ (select_device arg) = ''EB''"
  using select_device_mk [of arg] by (auto simp: mk_device_def)

lemma spi_loop_append:
  "spi_loop dev hs s (xs @ ys) =
     (case spi_loop dev hs s xs of
        Continue s' \<Rightarrow> spi_loop dev hs s' ys
      | Halt s' \<Rightarrow> Halt s'
      | Raised e \<Rightarrow> Raised e)"
  by (induction xs arbitrary: s) (auto split: flow.splits)

text \<open>
  The definitions to unfold when a reading function is evaluated on given lines.
\<close>

lemmas spi_eval =
  spi_read_file_def spi_headers_def remove_dq_def dq_def quoted_def spi_row_def spi_values_def
  len_header_pos_def untyped_row_def untyped_fields_def typed_row_def typed_detect_def
  field_def header_pos_def
  untyped_cycle_def new_command_check_def truthy_def is_opcode_def untyped_detect_def
  transfer_cycle_def close_transaction_def spi_init_def Let_def

subsection \<open>Closing a transaction in the shape without a type column\<close>

text \<open>
  Claim C5, as amended. In the shape without a \<open>type\<close> column, a row that is
  read while a transaction is in progress closes and appends that transaction exactly
  when \<open>count\<close> is greater than 4 and the command-line byte is any of the four valid
  opcodes, the opcode of the transaction in progress included; the opcode then starts
  a new transaction with \<open>count\<close> 1. Otherwise the result set and the command stay
  as they are.
\<close>

theorem untyped_close_on_any_opcode:
  assumes fields: "untyped_fields headers values = Inr (Some (mosi_val, miso_val))"
    and active: "truthy (command_found s)"
    and step: "untyped_row (select_device arg) headers s values = Continue s'"
  shows "if count s > 4 \<and> is_opcode (select_device arg) mosi_val
         then results s' = results s @ [\<lparr>address = address_buf s, data = data_buf s\<rparr>] \<and>
              command_found s' = Some mosi_val \<and> count s' = 1 \<and>
              address_buf s' = [] \<and> data_buf s' = []
         else results s' = results s \<and> command_found s' = command_found s"
proof (cases "count s > 4 \<and> is_opcode (select_device arg) mosi_val")
  case True
  then have "new_command_check (select_device arg) s mosi_val = close_transaction s"
    using active by (simp add: new_command_check_def)
  then have "untyped_cycle (select_device arg) s mosi_val miso_val =
      Inr (untyped_detect (select_device arg) (close_transaction s) mosi_val)"
    by (simp add: untyped_cycle_def Let_def close_transaction_def truthy_def)
  with step fields have "s' = untyped_detect (select_device arg) (close_transaction s) mosi_val"
    by (simp add: untyped_row_def)
  with True show ?thesis
    by (auto simp: untyped_detect_def close_transaction_def is_opcode_def)
next
  case False
  then have n: "new_command_check (select_device arg) s mosi_val = s"
    by (auto simp: new_command_check_def)
  from step fields have "untyped_cycle (select_device arg) s mosi_val miso_val = Inr s'"
    by (simp add: untyped_row_def split: sum.splits)
  then have "transfer_cycle (select_device arg) s mosi_val miso_val = Inr s'"
    using active n by (simp add: untyped_cycle_def Let_def)
  then have "results s' = results s \<and> command_found s' = command_found s"
    by (auto simp: transfer_cycle_def split: if_splits sum.splits prod.splits)
  with False show ?thesis by simp
qed

text \<open>
  The theorem at a Read transaction in its data phase and a row with the opcode 0B.
\<close>

theorem untyped_close_on_any_opcode_witness:
  "untyped_row (select_device None) [''mosi'', ''miso'']
      \<lparr>command_found = Some ''03'', count = 5, address_buf = ''000102'', data_buf = [''AA''],
        res_count = 0, results = []\<rparr> [''0x0B'', ''0xBB''] =
    Continue \<lparr>command_found = Some ''0B'', count = 1, address_buf = [], data_buf = [],
        res_count = 0, results = [\<lparr>address = ''000102'', data = [''AA'']\<rparr>]\<rparr>"
proof -
  let ?s = "\<lparr>command_found = Some ''03'', count = 5, address_buf = ''000102'',
        data_buf = [''AA''], res_count = 0, results = []\<rparr>"
  let ?s' = "\<lparr>command_found = Some ''0B'', count = 1, address_buf = [], data_buf = [],
        res_count = 0, results = [\<lparr>address = ''000102'', data = [''AA'']\<rparr>]\<rparr>"
  have h1: "untyped_fields [''mosi'', ''miso''] [''0x0B'', ''0xBB''] = Inr (Some (''0B'', ''BB''))"
    by (simp add: spi_eval)
  have h2: "truthy (command_found ?s)" by (simp add: truthy_def)
  have h3: "untyped_row (select_device None) [''mosi'', ''miso''] ?s [''0x0B'', ''0xBB''] =
      Continue ?s'"
    by (simp add: spi_eval)
  from untyped_close_on_any_opcode [OF h1 h2 h3] h3 show ?thesis by simp
qed

text \<open>
  Claim C5 as stated fails: the opcode 03 of a Read transaction, seen again on the
  command line in the data phase, closes the transaction and starts a new one.
\<close>

theorem untyped_same_opcode_closes:
  "spi_read_file (select_device None)
     [''mosi,miso'', ''0x03,0x00'', ''0x00,0x00'', ''0x01,0x00'', ''0x02,0x00'', ''0xFF,0xAA'',
      ''0x03,0xBB''] =
   Continue \<lparr>command_found = Some ''03'', count = 1, address_buf = [], data_buf = [],
      res_count = 0, results = [\<lparr>address = ''000102'', data = [''AA'']\<rparr>]\<rparr>"
  by (simp add: spi_eval)

subsection \<open>Headers without the data-line column\<close>

lemma untyped_row_halt:
  "(untyped_row dev hs s values = Halt s') =
     (s' = s \<and> ''miso'' \<notin> set hs \<and> ''MISO'' \<notin> set hs)"
  by (auto simp: untyped_row_def untyped_fields_def Let_def split: sum.splits option.splits)

lemma typed_row_halt:
  "(typed_row dev hs s values = Halt s') =
     (s' = s \<and> ''miso'' \<notin> set hs \<and> field hs values ''type'' = Inr (quoted ''result''))"
  by (auto simp: typed_row_def quoted_def split: sum.splits)

lemma spi_row_halt:
  "(spi_row dev hs s line = Halt s') =
     (\<exists>values. spi_values hs line = Some values \<and> s' = s \<and>
        (if ''type'' \<in> set hs
         then ''miso'' \<notin> set hs \<and> field hs values ''type'' = Inr (quoted ''result'')
         else ''miso'' \<notin> set hs \<and> ''MISO'' \<notin> set hs))"
  by (cases "spi_values hs line") (auto simp: spi_row_def untyped_row_halt typed_row_halt)

lemma spi_loop_never_halts:
  assumes "\<And>s line s'. spi_row dev hs s line \<noteq> Halt s'"
  shows "spi_loop dev hs s rows \<noteq> Halt s'"
proof (induction rows arbitrary: s)
  case Nil
  then show ?case by simp
next
  case (Cons line rows)
  then show ?case
    using assms by (cases "spi_row dev hs s line") auto
qed

lemma idle_row_without_columns:
  assumes "''miso'' \<notin> set hs" and "\<not> truthy (command_found s)"
    and "spi_row dev hs s line = Continue s'"
    and "''type'' \<in> set hs \<or> ''MISO'' \<notin> set hs"
  shows "results s' = results s \<and> command_found s' = command_found s"
proof (cases "spi_values hs line")
  case None
  with assms(3) show ?thesis by (simp add: spi_row_def)
next
  case (Some vs)
  show ?thesis
  proof (cases "''type'' \<in> set hs")
    case True
    with Some assms(3) have "typed_row dev hs s vs = Continue s'"
      by (simp add: spi_row_def)
    then show ?thesis
      using assms(1,2) by (auto simp: typed_row_def split: sum.splits if_splits)
  next
    case False
    with Some assms(3) have "untyped_row dev hs s vs = Continue s'"
      by (simp add: spi_row_def)
    then show ?thesis
      using assms(1,4) False
      by (auto simp: untyped_row_def untyped_fields_def Let_def split: sum.splits option.splits)
  qed
qed

lemma idle_loop_without_columns:
  assumes "''miso'' \<notin> set hs" and "''type'' \<in> set hs \<or> ''MISO'' \<notin> set hs"
  shows "\<not> truthy (command_found s) \<Longrightarrow>
     spi_loop dev hs s rows = Continue s' \<or> spi_loop dev hs s rows = Halt s' \<Longrightarrow>
     results s' = results s"
proof (induction rows arbitrary: s)
  case Nil
  then show ?case by auto
next
  case (Cons line rows)
  show ?case
  proof (cases "spi_row dev hs s line")
    case (Continue s1)
    from idle_row_without_columns [OF assms(1) Cons.prems(1) Continue assms(2)]
    have e: "results s1 = results s" "command_found s1 = command_found s" by simp_all
    with Cons.prems(1) have "\<not> truthy (command_found s1)" by simp
    from Cons.IH [OF this] Cons.prems(2) Continue e show ?thesis by simp
  next
    case (Halt s1)
    with Cons.prems(2) have "s' = s1" by simp
    moreover from Halt have "s1 = s" by (auto simp: spi_row_halt)
    ultimately show ?thesis by simp
  next
    case (Raised e)
    with Cons.prems(2) show ?thesis by simp
  qed
qed

text \<open>
  Claim C8, as amended. When the header names neither \<open>miso\<close> nor \<open>MISO\<close>, the
  reader returns with an empty result set, and a row whose field count fits the header
  makes it return at once exactly when the shape has no \<open>type\<close> column or the row's
  type is \<open>"result"\<close>. Conversely no row makes it return early when the shape has no
  \<open>type\<close> column and the header names \<open>miso\<close> or \<open>MISO\<close>, or when the shape has a
  \<open>type\<close> column and the header names \<open>miso\<close>.
\<close>

theorem missing_column_halts:
  "(''miso'' \<notin> set hs \<and> ''MISO'' \<notin> set hs \<longrightarrow>
      (\<forall>s'. spi_loop dev hs spi_init rows = Continue s' \<or>
            spi_loop dev hs spi_init rows = Halt s' \<longrightarrow> results s' = []) \<and>
      (\<forall>values. spi_values hs line = Some values \<longrightarrow>
         (spi_row dev hs s line = Halt s) =
           (if ''type'' \<in> set hs then field hs values ''type'' = Inr (quoted ''result'')
            else True))) \<and>
   ((''type'' \<notin> set hs \<and> (''miso'' \<in> set hs \<or> ''MISO'' \<in> set hs)) \<or>
    (''type'' \<in> set hs \<and> ''miso'' \<in> set hs) \<longrightarrow>
      (\<forall>s'. spi_loop dev hs s rows \<noteq> Halt s'))"
proof (intro conjI impI allI)
  fix s'
  assume n: "''miso'' \<notin> set hs \<and> ''MISO'' \<notin> set hs"
    and r: "spi_loop dev hs spi_init rows = Continue s' \<or> spi_loop dev hs spi_init rows = Halt s'"
  have "\<not> truthy (command_found spi_init)" by (simp add: spi_init_def truthy_def)
  from idle_loop_without_columns [OF _ _ this r] n have "results s' = results spi_init"
    by simp
  then show "results s' = []" by (simp add: spi_init_def)
next
  fix vs
  assume "''miso'' \<notin> set hs \<and> ''MISO'' \<notin> set hs" and "spi_values hs line = Some vs"
  then show "(spi_row dev hs s line = Halt s) =
      (if ''type'' \<in> set hs then field hs vs ''type'' = Inr (quoted ''result'') else True)"
    by (simp add: spi_row_halt)
next
  fix s'
  assume c: "(''type'' \<notin> set hs \<and> (''miso'' \<in> set hs \<or> ''MISO'' \<in> set hs)) \<or>
    (''type'' \<in> set hs \<and> ''miso'' \<in> set hs)"
  then have "\<And>s line s'. spi_row dev hs s line \<noteq> Halt s'"
    by (auto simp: spi_row_halt)
  then show "spi_loop dev hs s rows \<noteq> Halt s'"
    by (rule spi_loop_never_halts)
qed

text \<open>
  The theorem at a header with a \<open>type\<close> column and no data-line column, for a
  \<open>"result"\<close> row, and at a header \<open>MOSI,MISO\<close>.
\<close>

theorem missing_column_halts_witness:
  "results spi_init = [] \<and>
   spi_row (select_device None) [''type'', ''mosi''] spi_init (quoted ''result'' @ '',0x03'') =
     Halt spi_init \<and>
   spi_loop (select_device None) [''MOSI'', ''MISO''] spi_init [''0x03,0x00''] \<noteq> Halt spi_init"
proof -
  let ?hs = "[''type'', ''mosi'']" and ?line = "quoted ''result'' @ '',0x03''"
  have n: "''miso'' \<notin> set ?hs \<and> ''MISO'' \<notin> set ?hs" by simp
  have v: "spi_values ?hs ?line = Some [quoted ''result'', ''0x03'']"
    by (simp add: spi_eval)
  have f: "field ?hs [quoted ''result'', ''0x03''] ''type'' = Inr (quoted ''result'')"
    by (simp add: spi_eval)
  have l: "spi_loop (select_device None) ?hs spi_init [?line] = Halt spi_init"
    by (simp add: spi_eval)
  have c: "(''type'' \<notin> set [''MOSI'', ''MISO''] \<and>
        (''miso'' \<in> set [''MOSI'', ''MISO''] \<or> ''MISO'' \<in> set [''MOSI'', ''MISO''])) \<or>
      (''type'' \<in> set [''MOSI'', ''MISO''] \<and> ''miso'' \<in> set [''MOSI'', ''MISO''])"
    by simp
  from missing_column_halts [where hs = ?hs and dev = "select_device None" and rows = "[?line]"
      and line = ?line and s = spi_init] n v f l
  have "results spi_init = [] \<and>
      spi_row (select_device None) ?hs spi_init ?line = Halt spi_init"
    by simp
  moreover from missing_column_halts [where hs = "[''MOSI'', ''MISO'']"
      and dev = "select_device None" and rows = "[''0x03,0x00'']" and s = spi_init] c
  have "spi_loop (select_device None) [''MOSI'', ''MISO''] spi_init [''0x03,0x00''] \<noteq>
      Halt spi_init"
    by blast
  ultimately show ?thesis by simp
qed

text \<open>
  Claim C8 as stated fails: with a \<open>type\<close> column and no data-line column, a first
  data row of type \<open>"disable"\<close> does not stop the reader, which ends its loop normally.
\<close>

theorem typed_disable_row_does_not_halt:
  "spi_read_file (select_device None) [''type,mosi'', quoted ''disable'' @ '',0x00''] =
     Continue spi_init"
  by (simp add: spi_eval)

subsection \<open>Recognising a command in the shape with a type column\<close>

lemma quoted_eq [simp]: "(quoted a = quoted b) = (a = b)"
  by (simp add: quoted_def)

lemma since_disable_snoc:
  "since_disable hs (pre @ [l]) =
     (if row_type hs l = Some (quoted ''disable'') then [] else since_disable hs pre @ [l])"
  by (simp add: since_disable_def)

lemma typed_step_skip:
  assumes "''type'' \<in> set hs" and "spi_row dev hs s0 l = Continue s"
    and "row_type hs l \<noteq> Some (quoted ''disable'')"
    and "row_type hs l \<noteq> Some (quoted ''result'')"
  shows "s = s0"
  using assms
  by (auto simp: spi_row_def row_type_def typed_row_def split: option.splits sum.splits if_splits)

lemma typed_step_disable:
  assumes "''type'' \<in> set hs" and "spi_row dev hs s0 l = Continue s"
    and "row_type hs l = Some (quoted ''disable'')"
    and "command_found s0 \<noteq> None \<longrightarrow> truthy (command_found s0)"
  shows "command_found s = None \<and> res_count s = 0"
  using assms
  by (auto simp: spi_row_def row_type_def typed_row_def close_transaction_def truthy_def
      split: option.splits sum.splits if_splits)

lemma typed_step_result_active:
  assumes "''type'' \<in> set hs" and "spi_row dev hs s0 l = Continue s"
    and "row_type hs l = Some (quoted ''result'')" and "truthy (command_found s0)"
  shows "command_found s = command_found s0"
proof -
  from assms obtain m mi where "transfer_cycle dev s0 m mi = Inr s"
    by (auto simp: spi_row_def row_type_def typed_row_def
        split: option.splits sum.splits if_splits)
  then show ?thesis
    by (auto simp: transfer_cycle_def split: if_splits sum.splits prod.splits)
qed

lemma typed_step_result_idle:
  assumes "''type'' \<in> set hs" and "spi_row (select_device arg) hs s0 l = Continue s"
    and "row_type hs l = Some (quoted ''result'')" and "command_found s0 = None"
  shows "\<exists>m. typed_mosi hs l = Some m \<and>
     (if is_opcode (select_device arg) m \<and> res_count s0 = 0 then command_found s = Some m
      else command_found s = None \<and> res_count s = res_count s0 + 1)"
proof -
  from assms obtain m where m: "typed_mosi hs l = Some m"
    and s: "s = typed_detect (select_device arg) s0 m"
    by (auto simp: spi_row_def row_type_def typed_mosi_def typed_row_def truthy_def
        split: option.splits sum.splits if_splits)
  from s assms(4) have "if is_opcode (select_device arg) m \<and> res_count s0 = 0
      then command_found s = Some m
      else command_found s = None \<and> res_count s = res_count s0 + 1"
    by (auto simp: typed_detect_def is_opcode_def)
  with m show ?thesis by blast
qed

lemma is_opcode_nonempty: "is_opcode (select_device arg) m \<Longrightarrow> m \<noteq> []"
  by (auto simp: is_opcode_def)

lemma typed_res_count_invariant:
  assumes typed: "''type'' \<in> set hs"
  shows "spi_loop (select_device arg) hs spi_init pre = Continue s \<Longrightarrow>
     (command_found s = None \<longrightarrow>
        res_count s = length (result_rows hs (since_disable hs pre))) \<and>
     (command_found s \<noteq> None \<longrightarrow> truthy (command_found s))"
proof (induction pre arbitrary: s rule: rev_induct)
  case Nil
  then show ?case by (auto simp: spi_init_def since_disable_def result_rows_def)
next
  case (snoc l pre)
  from snoc.prems obtain s0 where
    run: "spi_loop (select_device arg) hs spi_init pre = Continue s0"
    and step: "spi_row (select_device arg) hs s0 l = Continue s"
    by (auto simp: spi_loop_append split: flow.splits)
  note ih = snoc.IH [OF run]
  consider (disable) "row_type hs l = Some (quoted ''disable'')"
    | (result) "row_type hs l = Some (quoted ''result'')"
    | (other) "row_type hs l \<noteq> Some (quoted ''disable'')"
        "row_type hs l \<noteq> Some (quoted ''result'')"
    by blast
  then show ?case
  proof cases
    case disable
    from ih have "command_found s0 \<noteq> None \<longrightarrow> truthy (command_found s0)" by simp
    from typed_step_disable [OF typed step disable this] disable show ?thesis
      by (simp add: since_disable_snoc result_rows_def)
  next
    case result
    then have sd: "result_rows hs (since_disable hs (pre @ [l])) =
        result_rows hs (since_disable hs pre) @ [l]"
      by (simp add: since_disable_snoc result_rows_def)
    show ?thesis
    proof (cases "command_found s0")
      case None
      from typed_step_result_idle [OF typed step result None] obtain m where
        "if is_opcode (select_device arg) m \<and> res_count s0 = 0 then command_found s = Some m
         else command_found s = None \<and> res_count s = res_count s0 + 1"
        by blast
      with ih None sd show ?thesis
        by (auto simp: truthy_def dest: is_opcode_nonempty split: if_splits)
    next
      case (Some c)
      with ih have t: "truthy (command_found s0)" by simp
      from typed_step_result_active [OF typed step result t] Some t show ?thesis by simp
    qed
  next
    case other
    from typed_step_skip [OF typed step other] ih other show ?thesis
      by (simp add: since_disable_snoc result_rows_def)
  qed
qed

text \<open>
  Claim C10. In the shape with a \<open>type\<close> column, in a state reached with no
  command in progress, \<open>res_count\<close> is the number of \<open>"result"\<close> rows read since the
  last \<open>"disable"\<close> row (or since the start), and the next row starts a command exactly
  when \<open>res_count\<close> is 0 and the row is a \<open>"result"\<close> row whose command-line byte is
  one of the four opcodes. So an opcode is recognised only on the first \<open>"result"\<close>
  row after the start or after a \<open>"disable"\<close> row, and after a \<open>"result"\<close> row that
  started no command every opcode is passed over until the next \<open>"disable"\<close> row.
\<close>

theorem opcode_recognised_only_at_res_count_zero:
  assumes typed: "''type'' \<in> set hs"
    and run: "spi_loop (select_device arg) hs spi_init pre = Continue s"
    and idle: "command_found s = None"
    and step: "spi_row (select_device arg) hs s line = Continue s'"
  shows "res_count s = length (result_rows hs (since_disable hs pre)) \<and>
     (command_found s' \<noteq> None) =
       (res_count s = 0 \<and> row_type hs line = Some (quoted ''result'') \<and>
        (case typed_mosi hs line of
           None \<Rightarrow> False
         | Some m \<Rightarrow> is_opcode (select_device arg) m \<and> command_found s' = Some m))"
proof -
  from typed_res_count_invariant [OF typed run] idle
  have c: "res_count s = length (result_rows hs (since_disable hs pre))" by simp
  consider (disable) "row_type hs line = Some (quoted ''disable'')"
    | (result) "row_type hs line = Some (quoted ''result'')"
    | (other) "row_type hs line \<noteq> Some (quoted ''disable'')"
        "row_type hs line \<noteq> Some (quoted ''result'')"
    by blast
  then have "(command_found s' \<noteq> None) =
       (res_count s = 0 \<and> row_type hs line = Some (quoted ''result'') \<and>
        (case typed_mosi hs line of
           None \<Rightarrow> False
         | Some m \<Rightarrow> is_opcode (select_device arg) m \<and> command_found s' = Some m))"
  proof cases
    case disable
    from idle have "command_found s \<noteq> None \<longrightarrow> truthy (command_found s)" by simp
    from typed_step_disable [OF typed step disable this] disable show ?thesis by simp
  next
    case result
    from typed_step_result_idle [OF typed step result idle] result show ?thesis
      by (auto split: if_splits)
  next
    case other
    from typed_step_skip [OF typed step other] idle other show ?thesis by simp
  qed
  with c show ?thesis by simp
qed

text \<open>
  The theorem after one \<open>"disable"\<close> row, for a \<open>"result"\<close> row with the opcode 03.
\<close>

theorem opcode_recognised_only_at_res_count_zero_witness:
  "res_count spi_init = 0 \<and>
   spi_row (select_device None) [''type'', ''mosi'', ''miso''] spi_init
      (quoted ''result'' @ '',0x03,0x00'') =
     Continue (spi_init\<lparr>command_found := Some ''03'', count := 1\<rparr>) \<and>
   result_rows [''type'', ''mosi'', ''miso'']
     (since_disable [''type'', ''mosi'', ''miso''] [quoted ''disable'' @ '',0x00,0x00'']) = []"
proof -
  let ?hs = "[''type'', ''mosi'', ''miso'']"
  let ?pre = "[quoted ''disable'' @ '',0x00,0x00'']"
  let ?line = "quoted ''result'' @ '',0x03,0x00''"
  have h1: "''type'' \<in> set ?hs" by simp
  have h2: "spi_loop (select_device None) ?hs spi_init ?pre = Continue spi_init"
    by (simp add: spi_eval)
  have h3: "command_found spi_init = None" by (simp add: spi_init_def)
  have h4: "spi_row (select_device None) ?hs spi_init ?line =
      Continue (spi_init\<lparr>command_found := Some ''03'', count := 1\<rparr>)"
    by (simp add: spi_eval)
  have "res_count spi_init = 0" by (simp add: spi_init_def)
  with opcode_recognised_only_at_res_count_zero [OF h1 h2 h3 h4] h4 show ?thesis by simp
qed

subsection \<open>The address of a closed transaction in the shape without a type column\<close>











end
